theory Spec2Isabelle
  imports Complex_Main "HOL-Library.List_Lexorder"
begin

section \<open>JavaScript strings\<close>

text \<open>
  A JavaScript string is a sequence of UTF-16 code units. The en dash of
  \<^verbatim>\<open>extractLocation\<close> (U+2013) and the Unicode white space of \<^verbatim>\<open>\s\<close> and
  \<^verbatim>\<open>trim\<close> lie beyond one byte, so a code unit is modelled as its integer value
  (0 to 65535) and a string as a list of them. \<open>js\<close> turns an ASCII literal into
  such a string.
\<close>

type_synonym code_unit = int
type_synonym jstring = "code_unit list"

definition js :: "string \<Rightarrow> jstring" where
  "js s = map of_char s"

text \<open>\<^verbatim>\<open>\s\<close> of a regular expression, which is also what \<^verbatim>\<open>trim()\<close> strips:
  WhiteSpace and LineTerminator of ECMAScript.\<close>

definition isSpace :: "code_unit \<Rightarrow> bool" where
  "isSpace c = (c \<in> set [9, 10, 11, 12, 13, 32, 160, 5760, 8232, 8233, 8239, 8287, 12288, 65279]
                \<or> (8192 \<le> c \<and> c \<le> 8202))"

text \<open>The code units that \<^verbatim>\<open>.\<close> does not match.\<close>

definition isLineTerminator :: "code_unit \<Rightarrow> bool" where
  "isLineTerminator c = (c \<in> set [10, 13, 8232, 8233])"

definition isUpperAZ :: "code_unit \<Rightarrow> bool" where
  "isUpperAZ c = (65 \<le> c \<and> c \<le> 90)"

definition isDigit :: "code_unit \<Rightarrow> bool" where
  "isDigit c = (48 \<le> c \<and> c \<le> 57)"

text \<open>\<^verbatim>\<open>\w\<close>, which decides the word boundaries \<^verbatim>\<open>\b\<close>.\<close>

definition isWordChar :: "code_unit \<Rightarrow> bool" where
  "isWordChar c = (isUpperAZ c \<or> (97 \<le> c \<and> c \<le> 122) \<or> isDigit c \<or> c = 95)"

definition trim :: "jstring \<Rightarrow> jstring" where
  "trim s = rev (dropWhile isSpace (rev (dropWhile isSpace s)))"

text \<open>\<^verbatim>\<open>text.split('\n')\<close>: the pieces between line feeds; the empty string gives one
  empty piece.\<close>

fun split_nl :: "jstring \<Rightarrow> jstring list" where
  "split_nl [] = [[]]"
| "split_nl (c # cs) =
     (if c = 10 then [] # split_nl cs
      else (case split_nl cs of [] \<Rightarrow> [[c]] | l # ls \<Rightarrow> (c # l) # ls))"

text \<open>\<^verbatim>\<open>xs.join(sep)\<close>\<close>

fun join :: "jstring \<Rightarrow> jstring list \<Rightarrow> jstring" where
  "join sep [] = []"
| "join sep [x] = x"
| "join sep (x # y # ys) = x @ sep @ join sep (y # ys)"

text \<open>The first alternative of a list that succeeds.\<close>

fun first_some :: "('a \<Rightarrow> 'b option) \<Rightarrow> 'a list \<Rightarrow> 'b option" where
  "first_some f [] = None"
| "first_some f (x # xs) = (case f x of Some y \<Rightarrow> Some y | None \<Rightarrow> first_some f xs)"

section \<open>The regular expressions of the parser\<close>

text \<open>
  Matching a pattern character under the \<^verbatim>\<open>i\<close> flag (no \<^verbatim>\<open>u\<close> flag): the pattern
  characters used here are ASCII upper-case letters, the full stop and the space. An
  input code unit matches an upper-case letter when it is that letter or its ASCII
  lower-case form (a code unit from 128 on never canonicalises to an ASCII letter), and
  matches any other pattern character only when equal.
\<close>

definition ci_eq :: "code_unit \<Rightarrow> code_unit \<Rightarrow> bool" where
  "ci_eq p c = (c = p \<or> (isUpperAZ p \<and> c = p + 32))"

text \<open>Matching a literal word case-insensitively at the start of the input; the result
  is the rest of the input.\<close>

fun ci_prefix :: "jstring \<Rightarrow> jstring \<Rightarrow> jstring option" where
  "ci_prefix [] s = Some s"
| "ci_prefix (p # ps) [] = None"
| "ci_prefix (p # ps) (c # cs) = (if ci_eq p c then ci_prefix ps cs else None)"

text \<open>The alternatives \<^verbatim>\<open>INT\.|EXT\.|INTERIOR|EXTERIOR\<close>, in the order of the pattern.\<close>

definition slugs :: "jstring list" where
  "slugs = [js ''INT.'', js ''EXT.'', js ''INTERIOR'', js ''EXTERIOR'']"

text \<open>
  \<^verbatim>\<open>\s+(.+)\<close> where only success matters. \<open>ws_then_any\<close> is called after the first
  white space: either the group starts here (the next code unit is not a line
  terminator), or \<^verbatim>\<open>\s+\<close> takes one more code unit.
\<close>

fun ws_then_any :: "jstring \<Rightarrow> bool" where
  "ws_then_any [] = False"
| "ws_then_any (d # u) = (if isLineTerminator d then isSpace d \<and> ws_then_any u else True)"

definition after_slug :: "jstring \<Rightarrow> bool" where
  "after_slug r = (case r of [] \<Rightarrow> False | c # t \<Rightarrow> isSpace c \<and> ws_then_any t)"

definition slug_then_rest :: "jstring \<Rightarrow> bool" where
  "slug_then_rest s =
     list_ex (\<lambda>a. case ci_prefix a s of None \<Rightarrow> False | Some r \<Rightarrow> after_slug r) slugs"

text \<open>
  \<^verbatim>\<open>/^(?:\d+\s+)?(INT\.|EXT\.|INTERIOR|EXTERIOR)\s+(.+)/i\<close> (line 72); only whether it
  matches is used. With the optional group, all digits and all white space after them are
  consumed (a slug starts with neither); without it, the slug starts the line.
\<close>

definition sceneMatch :: "jstring \<Rightarrow> bool" where
  "sceneMatch s =
     (let ds = takeWhile isDigit s; r = dropWhile isDigit s
      in (ds \<noteq> [] \<and> takeWhile isSpace r \<noteq> [] \<and> slug_then_rest (dropWhile isSpace r))
         \<or> slug_then_rest s)"

text \<open>The class \<^verbatim>\<open>[A-Z\s'().-]\<close> of the name group.\<close>

definition nameClass :: "code_unit \<Rightarrow> bool" where
  "nameClass c = (isUpperAZ c \<or> isSpace c \<or> c \<in> set [39, 40, 41, 46, 45])"

text \<open>
  \<^verbatim>\<open>/^([A-Z][A-Z\s'().-]{1,49}):\s*(.*)/\<close> (line 97), giving the two groups. The colon
  is not in the class, so the name group is the whole run of class characters after the
  first letter, which must be 1 to 49 long and be followed by the colon. Group 2 is what
  follows the white space after the colon, up to a line terminator.
\<close>

definition charMatch :: "jstring \<Rightarrow> (jstring \<times> jstring) option" where
  "charMatch s =
     (case s of
        [] \<Rightarrow> None
      | c # t \<Rightarrow>
          if isUpperAZ c then
            (let run = takeWhile nameClass t in
             if 1 \<le> length run \<and> length run \<le> 49 then
               (case dropWhile nameClass t of
                  [] \<Rightarrow> None
                | x # r \<Rightarrow>
                    if x = 58
                    then Some (c # run,
                               takeWhile (\<lambda>y. \<not> isLineTerminator y) (dropWhile isSpace r))
                    else None)
             else None)
          else None)"

text \<open>\<^verbatim>\<open>.*?\)\<close>: the number of code units up to and including the first closing
  parenthesis, when no line terminator comes before it.\<close>

fun lazy_close :: "jstring \<Rightarrow> nat option" where
  "lazy_close [] = None"
| "lazy_close (c # cs) =
     (if c = 41 then Some 1
      else if isLineTerminator c then None
      else map_option Suc (lazy_close cs))"

text \<open>\<^verbatim>\<open>\s*\(.*?\)\<close> matched at the start of the input: the length of the match.\<close>

definition paren_at :: "jstring \<Rightarrow> nat option" where
  "paren_at s =
     (case dropWhile isSpace s of
        [] \<Rightarrow> None
      | c # t \<Rightarrow>
          if c = 40
          then map_option (\<lambda>k. length (takeWhile isSpace s) + 1 + k) (lazy_close t)
          else None)"

text \<open>\<^verbatim>\<open>.replace(/\s*\(.*?\)/, '')\<close>: the leftmost match is removed, once.\<close>

fun replace_paren :: "jstring \<Rightarrow> jstring" where
  "replace_paren [] = []"
| "replace_paren (c # cs) =
     (case paren_at (c # cs) of
        Some n \<Rightarrow> drop n (c # cs)
      | None \<Rightarrow> c # replace_paren cs)"

text \<open>\<^verbatim>\<open>.replace(/\s+/g, ' ')\<close>: every run of white space becomes one space. The flag
  says whether the previous code unit was white space.\<close>

fun collapse_from :: "bool \<Rightarrow> jstring \<Rightarrow> jstring" where
  "collapse_from b [] = []"
| "collapse_from b (c # cs) =
     (if isSpace c then (if b then collapse_from True cs else 32 # collapse_from True cs)
      else c # collapse_from False cs)"

definition collapse_ws :: "jstring \<Rightarrow> jstring" where
  "collapse_ws s = collapse_from False s"

text \<open>\<^verbatim>\<open>/^(INT|EXT|FADE|...|MORE)$/i\<close> (line 103).\<close>

definition invalidWords :: "jstring list" where
  "invalidWords = map js [''INT'', ''EXT'', ''FADE'', ''CUT'', ''INTERIOR'', ''EXTERIOR'',
     ''SCENE'', ''THE'', ''AND'', ''OR'', ''TO'', ''IN'', ''ON'', ''AT'', ''TIME'', ''PLACE'',
     ''LOCATION'', ''CONT'', ''CONTINUED'', ''MORE'']"

definition invalidPatterns :: "jstring \<Rightarrow> bool" where
  "invalidPatterns s = list_ex (\<lambda>w. ci_prefix w s = Some []) invalidWords"

text \<open>The list of line 124.\<close>

definition commonWords :: "jstring list" where
  "commonWords = map js [''THE'', ''AND'', ''OR'', ''TO'', ''IN'', ''ON'', ''AT'', ''FADE'',
     ''CUT'', ''INT'', ''EXT'']"

text \<open>\<^verbatim>\<open>/^[A-Z'\s]+$/\<close> (line 121) and \<^verbatim>\<open>/^[A-Z][A-Z\s'().]+$/\<close> (line 132).\<close>

definition cueAlone :: "jstring \<Rightarrow> bool" where
  "cueAlone s = (s \<noteq> [] \<and> list_all (\<lambda>c. isUpperAZ c \<or> c = 39 \<or> isSpace c) s)"

definition cueExtended :: "jstring \<Rightarrow> bool" where
  "cueExtended s =
     (case s of
        [] \<Rightarrow> False
      | c # t \<Rightarrow> isUpperAZ c \<and> t \<noteq> [] \<and>
                 list_all (\<lambda>x. isUpperAZ x \<or> isSpace x \<or> x \<in> set [39, 40, 41, 46]) t)"

subsection \<open>extractLocation\<close>

text \<open>\<^verbatim>\<open>(?:\s+-\s+|\s+\<close>en dash\<^verbatim>\<open>\s+)\<close> matched at the start of the input.\<close>

definition sep_here :: "jstring \<Rightarrow> bool" where
  "sep_here s =
     (takeWhile isSpace s \<noteq> [] \<and>
      (case dropWhile isSpace s of
         d # x # _ \<Rightarrow> (d = 45 \<or> d = 8211) \<and> isSpace x
       | _ \<Rightarrow> False))"

text \<open>
  The lazy group \<^verbatim>\<open>(.+?)\<close> followed by a separator or the end of the string: the
  group (first argument: what it holds so far) grows by one code unit at a time, and
  stops as soon as it is not empty and a separator or the end follows.
\<close>

fun lazy_loc :: "jstring \<Rightarrow> jstring \<Rightarrow> jstring option" where
  "lazy_loc acc [] = (if acc \<noteq> [] then Some acc else None)"
| "lazy_loc acc (c # cs) =
     (if acc \<noteq> [] \<and> sep_here (c # cs) then Some acc
      else if isLineTerminator c then None
      else lazy_loc (acc @ [c]) cs)"

text \<open>The greedy \<^verbatim>\<open>\s+\<close> before the group, after its first code unit: it takes one
  more white space when it can, and gives it back when the rest then fails.\<close>

fun loc_after_ws :: "jstring \<Rightarrow> jstring option" where
  "loc_after_ws [] = lazy_loc [] []"
| "loc_after_ws (c # cs) =
     (if isSpace c
      then (case loc_after_ws cs of Some g \<Rightarrow> Some g | None \<Rightarrow> lazy_loc [] (c # cs))
      else lazy_loc [] (c # cs))"

definition loc_tail :: "jstring \<Rightarrow> jstring option" where
  "loc_tail r = (case r of [] \<Rightarrow> None | c # t \<Rightarrow> if isSpace c then loc_after_ws t else None)"

text \<open>\<^verbatim>\<open>/^(?:INT\.|EXT\.|INTERIOR|EXTERIOR)\s+(.+?)(?:\s+-\s+|\s+\<close>en dash\<^verbatim>\<open>\s+|$)/i\<close>
  (lines 175 to 178): the trimmed group, or the empty string when there is no match.\<close>

definition extractLocation :: "jstring \<Rightarrow> jstring" where
  "extractLocation sceneHeader =
     (case first_some (\<lambda>a. case ci_prefix a sceneHeader of None \<Rightarrow> None | Some r \<Rightarrow> loc_tail r)
             slugs of
        Some g \<Rightarrow> trim g
      | None \<Rightarrow> [])"

subsection \<open>extractTimeOfDay\<close>

definition timeWords :: "jstring list" where
  "timeWords = map js [''DAY'', ''NIGHT'', ''MORNING'', ''AFTERNOON'', ''EVENING'', ''DAWN'',
     ''DUSK'', ''CONTINUOUS'', ''LATER'', ''SAME TIME'']"

text \<open>\<^verbatim>\<open>\b\<close> between the code unit before (if any) and the one after (if any).\<close>

definition wordBoundary :: "code_unit option \<Rightarrow> code_unit option \<Rightarrow> bool" where
  "wordBoundary p n =
     ((case p of None \<Rightarrow> False | Some c \<Rightarrow> isWordChar c)
      \<noteq> (case n of None \<Rightarrow> False | Some c \<Rightarrow> isWordChar c))"

definition headOpt :: "'a list \<Rightarrow> 'a option" where
  "headOpt s = (case s of [] \<Rightarrow> None | c # _ \<Rightarrow> Some c)"

text \<open>\<^verbatim>\<open>toUpperCase()\<close> on the matched text, which holds ASCII letters and spaces
  only.\<close>

definition toUpperCase :: "jstring \<Rightarrow> jstring" where
  "toUpperCase s = map (\<lambda>c. if 97 \<le> c \<and> c \<le> 122 then c - 32 else c) s"

text \<open>The pattern of line 181 tried at one position: \<open>prev\<close> is the code unit before
  it.\<close>

definition time_at :: "code_unit option \<Rightarrow> jstring \<Rightarrow> jstring option" where
  "time_at prev s =
     (if wordBoundary prev (headOpt s) then
        first_some
          (\<lambda>w. case ci_prefix w s of
                  None \<Rightarrow> None
                | Some r \<Rightarrow>
                    let m = take (length w) s in
                    if wordBoundary (headOpt (rev m)) (headOpt r) then Some (toUpperCase m)
                    else None)
          timeWords
      else None)"

fun time_search :: "code_unit option \<Rightarrow> jstring \<Rightarrow> jstring option" where
  "time_search prev [] = time_at prev []"
| "time_search prev (c # cs) =
     (case time_at prev (c # cs) of
        Some t \<Rightarrow> Some t
      | None \<Rightarrow> time_search (Some c) cs)"

definition extractTimeOfDay :: "jstring \<Rightarrow> jstring" where
  "extractTimeOfDay sceneHeader =
     (case time_search None sceneHeader of Some t \<Rightarrow> t | None \<Rightarrow> js ''UNSPECIFIED'')"

section \<open>The analyzer's data\<close>

text \<open>The scene objects pushed at lines 77 and 150; \<^verbatim>\<open>null\<close> is \<open>None\<close>.\<close>

record scene =
  sceneNumber :: nat
  Scene_Names :: jstring
  Scene_action :: jstring
  Scene_Characters :: "jstring list option"
  Scene_Dialogue :: "jstring list option"
  Contents :: jstring
  location :: jstring
  timeOfDay :: jstring

text \<open>The dialogue objects pushed at line 112 (fields \<^verbatim>\<open>sceneNumber\<close>,
  \<^verbatim>\<open>characters\<close>, \<^verbatim>\<open>Character_dialogue\<close>, \<^verbatim>\<open>lineNumber\<close>).\<close>

record dialogue =
  d_sceneNumber :: nat
  d_characters :: jstring
  Character_dialogue :: jstring
  lineNumber :: nat

text \<open>The interaction objects of line 211 (fields \<^verbatim>\<open>character1\<close>,
  \<^verbatim>\<open>character2\<close>, \<^verbatim>\<open>scenes\<close>, \<^verbatim>\<open>interactionCount\<close>).\<close>

record interaction =
  character1 :: jstring
  character2 :: jstring
  i_scenes :: "nat list"
  interactionCount :: nat

text \<open>
  The fields of \<^verbatim>\<open>this\<close> that the analysis reads and writes. \<open>characters\<close> is a
  JavaScript \<^verbatim>\<open>Set\<close>: its members in insertion order, without repeats.
\<close>

record analyzer =
  scriptName :: jstring
  scenes :: "scene list"
  dialogues :: "dialogue list"
  characters :: "jstring list"
  movieCharacters :: "jstring list"
  interactions :: "interaction list"

text \<open>The constructor (lines 18 to 22).\<close>

definition new_analyzer :: "jstring \<Rightarrow> analyzer" where
  "new_analyzer name =
     \<lparr>scriptName = name, scenes = [], dialogues = [], characters = [],
      movieCharacters = [], interactions = []\<rparr>"

text \<open>The local variables of \<^verbatim>\<open>parseScreenplay\<close> (lines 59 to 63); \<open>l_sceneNumber\<close> is
  the counter \<^verbatim>\<open>sceneNumber\<close>.\<close>

record locals =
  currentScene :: "jstring option"
  currentSceneAction :: jstring
  currentSceneCharacters :: "jstring list"
  currentSceneDialogues :: "jstring list"
  l_sceneNumber :: nat

definition init_locals :: locals where
  "init_locals =
     \<lparr>currentScene = None, currentSceneAction = [], currentSceneCharacters = [],
      currentSceneDialogues = [], l_sceneNumber = 0\<rparr>"

text \<open>\<^verbatim>\<open>Set.prototype.add\<close>, and \<^verbatim>\<open>[...new Set(xs)]\<close>.\<close>

definition set_add :: "'a list \<Rightarrow> 'a \<Rightarrow> 'a list" where
  "set_add s x = (if x \<in> set s then s else s @ [x])"

definition uniq :: "'a list \<Rightarrow> 'a list" where
  "uniq xs = foldl set_add [] xs"

section \<open>parseScreenplay\<close>

text \<open>
  The push of lines 75 to 87, repeated at lines 148 to 160: when \<^verbatim>\<open>currentScene\<close> is
  truthy (a non-empty string), the counter is incremented and the scene is appended.
\<close>

definition saveScene :: "analyzer \<times> locals \<Rightarrow> analyzer \<times> locals" where
  "saveScene st =
     (case st of (a, l) \<Rightarrow>
        (case currentScene l of
           None \<Rightarrow> (a, l)
         | Some h \<Rightarrow>
             if h = [] then (a, l)
             else
               (let n = l_sceneNumber l + 1 in
                (a\<lparr>scenes := scenes a @
                     [\<lparr>sceneNumber = n,
                       Scene_Names = h,
                       Scene_action = trim (currentSceneAction l),
                       Scene_Characters =
                         (if length (currentSceneCharacters l) > 0
                          then Some (currentSceneCharacters l) else None),
                       Scene_Dialogue =
                         (if length (currentSceneDialogues l) > 0
                          then Some (currentSceneDialogues l) else None),
                       Contents = trim (currentSceneAction l) @ [10]
                                  @ join [32] (currentSceneDialogues l),
                       location = extractLocation h,
                       timeOfDay = extractTimeOfDay h\<rparr>]\<rparr>,
                 l\<lparr>l_sceneNumber := n\<rparr>))))"

text \<open>Lines 89 to 93.\<close>

definition startScene :: "jstring \<Rightarrow> analyzer \<times> locals \<Rightarrow> analyzer \<times> locals" where
  "startScene trimmedLine st =
     (case st of (a, l) \<Rightarrow>
        (a, l\<lparr>currentScene := Some trimmedLine, currentSceneAction := [],
              currentSceneCharacters := [], currentSceneDialogues := []\<rparr>))"

text \<open>Lines 106 to 109, repeated at 127 to 130 and 136 to 139.\<close>

definition addCharacter :: "jstring \<Rightarrow> analyzer \<times> locals \<Rightarrow> analyzer \<times> locals" where
  "addCharacter character st =
     (case st of (a, l) \<Rightarrow>
        (a\<lparr>characters := set_add (characters a) character\<rparr>,
         if character \<in> set (currentSceneCharacters l) then l
         else l\<lparr>currentSceneCharacters := currentSceneCharacters l @ [character]\<rparr>))"

text \<open>Lines 111 to 117; \<open>i\<close> is the loop index.\<close>

definition addDialogue :: "nat \<Rightarrow> jstring \<Rightarrow> jstring \<Rightarrow> analyzer \<times> locals \<Rightarrow> analyzer \<times> locals" where
  "addDialogue i character dialogue st =
     (case st of (a, l) \<Rightarrow>
        (a\<lparr>dialogues := dialogues a @
             [\<lparr>d_sceneNumber = l_sceneNumber l + 1, d_characters = character,
               Character_dialogue = dialogue, lineNumber = i + 1\<rparr>]\<rparr>,
         l\<lparr>currentSceneDialogues := currentSceneDialogues l @ [dialogue]\<rparr>))"

text \<open>
  Lines 97 to 105: the character and the dialogue of a line with a colon, when the
  pattern matches and the character passes the filter of line 105.
\<close>

definition cue :: "jstring \<Rightarrow> (jstring \<times> jstring) option" where
  "cue trimmedLine =
     (case charMatch trimmedLine of
        None \<Rightarrow> None
      | Some (g1, g2) \<Rightarrow>
          (let character = trim (collapse_ws (replace_paren (trim g1)));
               dialogue = trim g2
           in if character \<noteq> [] \<and> length character > 1 \<and> length character < 50
                 \<and> \<not> invalidPatterns character
              then Some (character, dialogue)
              else None))"

text \<open>Lines 97 to 120: the branch of a line that holds a colon and is shorter than 200.\<close>

definition colonLine :: "nat \<Rightarrow> jstring \<Rightarrow> analyzer \<times> locals \<Rightarrow> analyzer \<times> locals" where
  "colonLine i trimmedLine st =
     (case cue trimmedLine of
        None \<Rightarrow> st
      | Some (character, dialogue) \<Rightarrow>
          if dialogue \<noteq> []
          then addDialogue i character dialogue (addCharacter character st)
          else addCharacter character st)"

text \<open>Lines 123 to 131.\<close>

definition cueAloneLine :: "jstring \<Rightarrow> analyzer \<times> locals \<Rightarrow> analyzer \<times> locals" where
  "cueAloneLine trimmedLine st =
     (let character = replace_paren (trim trimmedLine)
      in if character \<noteq> [] \<and> character \<notin> set commonWords then addCharacter character st
         else st)"

text \<open>Lines 134 to 140.\<close>

definition cueExtendedLine :: "jstring \<Rightarrow> analyzer \<times> locals \<Rightarrow> analyzer \<times> locals" where
  "cueExtendedLine trimmedLine st =
     (let character = replace_paren (trim trimmedLine)
      in if character \<noteq> [] \<and> length character > 1 then addCharacter character st
         else st)"

text \<open>Line 143.\<close>

definition actionLine :: "jstring \<Rightarrow> analyzer \<times> locals \<Rightarrow> analyzer \<times> locals" where
  "actionLine trimmedLine st =
     (case st of (a, l) \<Rightarrow>
        (a, l\<lparr>currentSceneAction := currentSceneAction l @ [32] @ trimmedLine\<rparr>))"

text \<open>The body of the loop (lines 68 to 144) for the line of index \<open>i\<close>.\<close>

definition step :: "nat \<Rightarrow> jstring \<Rightarrow> analyzer \<times> locals \<Rightarrow> analyzer \<times> locals" where
  "step i line st =
     (let trimmedLine = trim line
      in if trimmedLine = [] then st
         else if sceneMatch trimmedLine then startScene trimmedLine (saveScene st)
         else if 58 \<in> set trimmedLine \<and> length trimmedLine < 200
           then colonLine i trimmedLine st
         else if cueAlone trimmedLine \<and> length trimmedLine > 2 \<and> length trimmedLine < 30
           then cueAloneLine trimmedLine st
         else if cueExtended trimmedLine \<and> length trimmedLine < 50
           then cueExtendedLine trimmedLine st
         else actionLine trimmedLine st)"

text \<open>The loop of line 67, from index \<open>i\<close> over the lines that remain.\<close>

fun loop :: "nat \<Rightarrow> jstring list \<Rightarrow> analyzer \<times> locals \<Rightarrow> analyzer \<times> locals" where
  "loop i [] st = st"
| "loop i (line # lines) st = loop (Suc i) lines (step i line st)"

section \<open>analyzeCharacterInteractions\<close>

text \<open>
  A JavaScript \<^verbatim>\<open>Map\<close> is a list of entries in insertion order with distinct keys.
  \<open>map_adjust\<close> is the mutation of the object stored under a key.
\<close>

definition map_has :: "'k \<Rightarrow> ('k \<times> 'v) list \<Rightarrow> bool" where
  "map_has k m = (k \<in> set (map fst m))"

definition map_adjust :: "'k \<Rightarrow> ('v \<Rightarrow> 'v) \<Rightarrow> ('k \<times> 'v) list \<Rightarrow> ('k \<times> 'v) list" where
  "map_adjust k f m = map (\<lambda>e. if fst e = k then (fst e, f (snd e)) else e) m"

text \<open>Lines 191 to 197, for one dialogue.\<close>

definition groupDialogue ::
  "(nat \<times> dialogue list) list \<Rightarrow> dialogue \<Rightarrow> (nat \<times> dialogue list) list" where
  "groupDialogue m d =
     (let sceneNum = d_sceneNumber d;
          m' = (if map_has sceneNum m then m else m @ [(sceneNum, [])])
      in map_adjust sceneNum (\<lambda>ds. ds @ [d]) m')"

text \<open>\<^verbatim>\<open>[char1, char2].sort().join('|')\<close> (line 208): the default sort compares
  strings by code units.\<close>

definition interactionKey :: "jstring \<Rightarrow> jstring \<Rightarrow> jstring" where
  "interactionKey char1 char2 =
     (if char2 < char1 then char2 @ [124] @ char1 else char1 @ [124] @ char2)"

text \<open>Lines 206 to 221, for one pair.\<close>

definition addPair ::
  "nat \<Rightarrow> (jstring \<times> interaction) list \<Rightarrow> jstring \<times> jstring \<Rightarrow> (jstring \<times> interaction) list" where
  "addPair sceneNum m p =
     (case p of (char1, char2) \<Rightarrow>
        (let key = interactionKey char1 char2;
             m' = (if map_has key m then m
                   else m @ [(key, \<lparr>character1 = char1, character2 = char2,
                                     i_scenes = [], interactionCount = 0\<rparr>)])
         in map_adjust key
              (\<lambda>x. x\<lparr>i_scenes := i_scenes x @ [sceneNum],
                      interactionCount := interactionCount x + 1\<rparr>) m'))"

text \<open>The index pairs \<open>i < j\<close> of lines 204 and 205, in the order the loops visit them.\<close>

fun pairs :: "'a list \<Rightarrow> ('a \<times> 'a) list" where
  "pairs [] = []"
| "pairs (x # xs) = map (Pair x) xs @ pairs xs"

text \<open>Lines 200 to 223, for one entry of \<^verbatim>\<open>sceneDialogues\<close> (the \<^verbatim>\<open>Map\<close> that
  lines 190 to 197 build with \<open>groupDialogue\<close>).\<close>

definition sceneInteractions ::
  "(jstring \<times> interaction) list \<Rightarrow> nat \<times> dialogue list \<Rightarrow> (jstring \<times> interaction) list" where
  "sceneInteractions m e =
     (case e of (sceneNum, ds) \<Rightarrow>
        foldl (addPair sceneNum) m (pairs (uniq (map d_characters ds))))"

text \<open>The \<^verbatim>\<open>Map\<close> named \<^verbatim>\<open>interactions\<close> when the method ends (lines 187 to 224).\<close>

definition interactionsMap :: "dialogue list \<Rightarrow> (jstring \<times> interaction) list" where
  "interactionsMap ds = foldl sceneInteractions [] (foldl groupDialogue [] ds)"

text \<open>Line 226: \<^verbatim>\<open>Array.from(interactions.values())\<close>.\<close>

definition analyzeCharacterInteractions :: "analyzer \<Rightarrow> analyzer" where
  "analyzeCharacterInteractions a = a\<lparr>interactions := map snd (interactionsMap (dialogues a))\<rparr>"

section \<open>The whole parse\<close>

text \<open>Lines 58 to 168, on the analyzer \<open>a\<close>.\<close>

definition parseScreenplay :: "analyzer \<Rightarrow> jstring \<Rightarrow> analyzer" where
  "parseScreenplay a text =
     (case saveScene (loop 0 (split_nl text) (a, init_locals)) of
        (a', l) \<Rightarrow>
          analyzeCharacterInteractions
            (a'\<lparr>movieCharacters :=
                  sort (filter (\<lambda>c. length c > 1 \<and> length c < 50) (characters a'))\<rparr>))"

text \<open>A fresh analyzer run on a text: what the specification calls \<^verbatim>\<open>analyze\<close>, before
  the summary.\<close>

definition analyze :: "jstring \<Rightarrow> analyzer" where
  "analyze text = parseScreenplay (new_analyzer []) text"

section \<open>The summary and the complete run\<close>













section \<open>Inputs of the scenarios\<close>

definition scenarioA :: jstring where
  "scenarioA = js ''INT. HOUSE - DAY'' @ [10] @ js ''JOHN: Hello there.'' @ [10]
               @ js ''EXT. STREET - NIGHT'' @ [10] @ js ''MARY: Hi John.''"

definition fadeIn :: jstring where
  "fadeIn = js ''FADE IN:''"

definition numberedHeading :: jstring where
  "numberedHeading = js ''12 INT. HOUSE - DAY''"

definition cueOnly :: jstring where
  "cueOnly = js ''JOHN: Hello''"

definition cueThenHeading :: jstring where
  "cueThenHeading = js ''JOHN: Hello'' @ [10] @ js ''INT. HOUSE - DAY''"

definition maryThenJohn :: jstring where
  "maryThenJohn = js ''INT. A'' @ [10] @ js ''MARY: hi'' @ [10] @ js ''JOHN: yo''"

section \<open>Notions of the statements and of the invariants\<close>

text \<open>A line that the loop treats as a scene heading: not blank once trimmed, and matched
  by the pattern of line 72.\<close>

definition isHeading :: "jstring \<Rightarrow> bool" where
  "isHeading line = (trim line \<noteq> [] \<and> sceneMatch (trim line))"

text \<open>A line that the loop treats as a character cue with dialogue (lines 95 to 118): not
  blank, not a heading, with a colon, shorter than 200, with an accepted character and a
  dialogue that is not empty. The result is the character and the dialogue.\<close>

definition dialogueLine :: "jstring \<Rightarrow> (jstring \<times> jstring) option" where
  "dialogueLine line =
     (let t = trim line
      in if t \<noteq> [] \<and> \<not> sceneMatch t \<and> 58 \<in> set t \<and> length t < 200
         then (case cue t of
                 None \<Rightarrow> None
               | Some (character, dialogue) \<Rightarrow>
                   if dialogue \<noteq> [] then Some (character, dialogue) else None)
         else None)"

text \<open>The scene numbers pushed so far are 1 up to the counter.\<close>

definition numbered :: "analyzer \<times> locals \<Rightarrow> bool" where
  "numbered st = (map sceneNumber (scenes (fst st)) = [1..<Suc (l_sceneNumber (snd st))])"

text \<open>The headings seen so far, in order: those of the closed scenes, then the open
  one.\<close>

definition headings :: "analyzer \<times> locals \<Rightarrow> jstring list" where
  "headings st = map Scene_Names (scenes (fst st))
                 @ (case currentScene (snd st) of None \<Rightarrow> [] | Some h \<Rightarrow> [h])"

text \<open>\<^verbatim>\<open>currentScene\<close> is \<^verbatim>\<open>null\<close> or a non-empty string.\<close>

definition open_ok :: "analyzer \<times> locals \<Rightarrow> bool" where
  "open_ok st = (currentScene (snd st) \<noteq> Some [])"

text \<open>
  The invariant of the loop for the scene numbers of the dialogue entries: as many scenes
  are closed as the counter says, every entry has a number from 1 to the counter plus
  one, and while no scene has been opened the counter is 0.
\<close>

definition attached :: "analyzer \<times> locals \<Rightarrow> bool" where
  "attached st =
     (length (scenes (fst st)) = l_sceneNumber (snd st)
      \<and> (\<forall>d \<in> set (dialogues (fst st)).
            1 \<le> d_sceneNumber d \<and> d_sceneNumber d \<le> Suc (l_sceneNumber (snd st)))
      \<and> (currentScene (snd st) = None \<longrightarrow> l_sceneNumber (snd st) = 0)
      \<and> currentScene (snd st) \<noteq> Some [])"

text \<open>
  The invariant of the loop for the names: every registered name is 2 to 49 long, and the
  names of the open scene, of the closed scenes and of the dialogue entries are
  registered.
\<close>

definition registered :: "analyzer \<times> locals \<Rightarrow> bool" where
  "registered st =
     ((\<forall>c \<in> set (characters (fst st)). 1 < length c \<and> length c < 50)
      \<and> set (currentSceneCharacters (snd st)) \<subseteq> set (characters (fst st))
      \<and> (\<forall>s \<in> set (scenes (fst st)). \<forall>cs. Scene_Characters s = Some cs
            \<longrightarrow> set cs \<subseteq> set (characters (fst st)))
      \<and> (\<forall>d \<in> set (dialogues (fst st)). d_characters d \<in> set (characters (fst st))))"

text \<open>No character of a dialogue entry holds the bar that joins the two names of a
  key.\<close>

definition bar_free :: "analyzer \<times> locals \<Rightarrow> bool" where
  "bar_free st = (\<forall>d \<in> set (dialogues (fst st)). 124 \<notin> set (d_characters d))"

text \<open>
  An entry of the interactions \<^verbatim>\<open>Map\<close>, when the scenes of \<open>S\<close> have been processed:
  its key is the key of its two names, the names differ and hold no bar, its scenes are
  distinct scenes of \<open>S\<close>, and its count is their number.
\<close>

definition entry_ok :: "nat set \<Rightarrow> jstring \<times> interaction \<Rightarrow> bool" where
  "entry_ok S e =
     (fst e = interactionKey (character1 (snd e)) (character2 (snd e))
      \<and> character1 (snd e) \<noteq> character2 (snd e)
      \<and> 124 \<notin> set (character1 (snd e)) \<and> 124 \<notin> set (character2 (snd e))
      \<and> distinct (i_scenes (snd e)) \<and> set (i_scenes (snd e)) \<subseteq> S
      \<and> interactionCount (snd e) = length (i_scenes (snd e)))"

definition well_formed :: "nat set \<Rightarrow> (jstring \<times> interaction) list \<Rightarrow> bool" where
  "well_formed S m = (distinct (map fst m) \<and> (\<forall>e \<in> set m. entry_ok S e))"

text \<open>While the pairs of scene \<open>n\<close> are processed: only the entries under the keys \<open>K\<close>
  already visited list \<open>n\<close>.\<close>

definition fresh :: "nat \<Rightarrow> jstring set \<Rightarrow> (jstring \<times> interaction) list \<Rightarrow> bool" where
  "fresh n K m = (\<forall>e \<in> set m. n \<in> set (i_scenes (snd e)) \<longrightarrow> fst e \<in> K)"


section \<open>Further inputs\<close>

definition titleThenCue :: jstring where
  "titleThenCue = js ''My Film'' @ [10] @ js ''JOHN: Hello'' @ [10] @ js ''INT. HOUSE - DAY''"

definition twoScenesSamePair :: jstring where
  "twoScenesSamePair = js ''INT. A'' @ [10] @ js ''MARY: hi'' @ [10] @ js ''JOHN: yo'' @ [10]
     @ js ''EXT. B'' @ [10] @ js ''JOHN: a'' @ [10] @ js ''MARY: b''"



section \<open>Lemmas\<close>

subsection \<open>Strings\<close>

lemma set_trim: "set (trim s) \<subseteq> set s"
proof -
  have "set (trim s) = set (dropWhile isSpace (rev (dropWhile isSpace s)))"
    by (simp add: trim_def)
  also have "\<dots> \<subseteq> set (rev (dropWhile isSpace s))" by (rule set_dropWhileD[THEN subsetI]) 
  also have "\<dots> \<subseteq> set s" using set_dropWhileD by fastforce
  finally show ?thesis .
qed

lemma length_trim: "length (trim s) \<le> length s"
proof -
  have "length (trim s) \<le> length (rev (dropWhile isSpace s))"
    using length_dropWhile_le[of isSpace "rev (dropWhile isSpace s)"] by (simp add: trim_def)
  also have "\<dots> \<le> length s" by (simp add: length_dropWhile_le)
  finally show ?thesis .
qed

lemma dropWhile_not_hd: "xs \<noteq> [] \<Longrightarrow> \<not> P (hd xs) \<Longrightarrow> dropWhile P xs = xs"
  by (cases xs) auto

lemma trim_fixed:
  assumes "s \<noteq> []" "\<not> isSpace (hd s)" "\<not> isSpace (last s)"
  shows "trim s = s"
proof -
  have 1: "dropWhile isSpace s = s" using assms by (simp add: dropWhile_not_hd)
  have "hd (rev s) = last s" using assms(1) by (simp add: hd_rev)
  then have 2: "dropWhile isSpace (rev s) = rev s" using assms by (simp add: dropWhile_not_hd)
  show ?thesis by (simp add: trim_def 1 2)
qed

lemma trim_ends:
  assumes "trim s \<noteq> []"
  shows "\<not> isSpace (hd (trim s))" "\<not> isSpace (last (trim s))"
proof -
  let ?u = "dropWhile isSpace s"
  let ?v = "dropWhile isSpace (rev ?u)"
  have t: "trim s = rev ?v" by (simp add: trim_def)
  have v: "?v \<noteq> []" using assms t by simp
  then have "\<not> isSpace (hd ?v)" by (rule hd_dropWhile)
  then show "\<not> isSpace (last (trim s))" using v by (simp add: t last_rev)
  have u: "?u \<noteq> []"
  proof
    assume a: "?u = []"
    have "?v = []" unfolding a by simp
    with v show False by simp
  qed
  then have hu: "\<not> isSpace (hd ?u)" by (rule hd_dropWhile)
  have "rev ?u = takeWhile isSpace (rev ?u) @ ?v" by simp
  then have "?u = rev ?v @ rev (takeWhile isSpace (rev ?u))"
    by (metis rev_append rev_rev_ident)
  then have "hd ?u = hd (rev ?v)" using v by (metis hd_append2 rev_is_Nil_conv)
  then show "\<not> isSpace (hd (trim s))" using hu by (simp add: t)
qed

lemma trim_trim: "trim (trim s) = trim s"
proof (cases "trim s = []")
  case True
  have "trim [] = []" by (simp add: trim_def)
  with True show ?thesis by simp
next
  case False
  then show ?thesis by (intro trim_fixed trim_ends)
qed

lemma length_replace_paren: "length (replace_paren s) \<le> length s"
  by (induction s) (auto split: option.splits)

lemma set_replace_paren: "set (replace_paren s) \<subseteq> set s"
proof (induction s)
  case Nil
  then show ?case by simp
next
  case (Cons c cs)
  show ?case
  proof (cases "paren_at (c # cs)")
    case None
    then show ?thesis using Cons by auto
  next
    case (Some n)
    then show ?thesis using set_drop_subset[of n "c # cs"] by simp
  qed
qed

lemma paren_at_needs_paren: "paren_at s = Some n \<Longrightarrow> 40 \<in> set s"
proof -
  assume a: "paren_at s = Some n"
  then obtain t where "dropWhile isSpace s = 40 # t"
    by (auto simp: paren_at_def split: list.splits if_splits)
  then have "40 \<in> set (dropWhile isSpace s)" by simp
  then show ?thesis by (rule set_dropWhileD)
qed

lemma replace_paren_id: "40 \<notin> set s \<Longrightarrow> replace_paren s = s"
proof (induction s)
  case Nil
  then show ?case by simp
next
  case (Cons c cs)
  then have "paren_at (c # cs) = None"
    using paren_at_needs_paren[of "c # cs"] by (cases "paren_at (c # cs)") auto
  then show ?case using Cons by simp
qed

lemma set_collapse_from: "set (collapse_from b s) \<subseteq> insert 32 (set s)"
  by (induction s arbitrary: b) auto

lemma set_collapse_ws: "set (collapse_ws s) \<subseteq> insert 32 (set s)"
  by (simp add: collapse_ws_def set_collapse_from)



subsection \<open>What each operation changes\<close>

lemma addCharacter_fields:
  "scenes (fst (addCharacter c st)) = scenes (fst st)"
  "dialogues (fst (addCharacter c st)) = dialogues (fst st)"
  "characters (fst (addCharacter c st)) = set_add (characters (fst st)) c"
  "currentScene (snd (addCharacter c st)) = currentScene (snd st)"
  "l_sceneNumber (snd (addCharacter c st)) = l_sceneNumber (snd st)"
  "currentSceneCharacters (snd (addCharacter c st)) = set_add (currentSceneCharacters (snd st)) c"
  by (cases st; simp add: addCharacter_def set_add_def)+

lemma addDialogue_fields:
  "scenes (fst (addDialogue i c d st)) = scenes (fst st)"
  "dialogues (fst (addDialogue i c d st)) = dialogues (fst st) @
     [\<lparr>d_sceneNumber = l_sceneNumber (snd st) + 1, d_characters = c,
       Character_dialogue = d, lineNumber = i + 1\<rparr>]"
  "characters (fst (addDialogue i c d st)) = characters (fst st)"
  "currentScene (snd (addDialogue i c d st)) = currentScene (snd st)"
  "l_sceneNumber (snd (addDialogue i c d st)) = l_sceneNumber (snd st)"
  "currentSceneCharacters (snd (addDialogue i c d st)) = currentSceneCharacters (snd st)"
  by (cases st; simp add: addDialogue_def)+

lemma actionLine_fields:
  "scenes (fst (actionLine t st)) = scenes (fst st)"
  "dialogues (fst (actionLine t st)) = dialogues (fst st)"
  "characters (fst (actionLine t st)) = characters (fst st)"
  "currentScene (snd (actionLine t st)) = currentScene (snd st)"
  "l_sceneNumber (snd (actionLine t st)) = l_sceneNumber (snd st)"
  "currentSceneCharacters (snd (actionLine t st)) = currentSceneCharacters (snd st)"
  by (cases st; simp add: actionLine_def)+

lemma startScene_fields:
  "scenes (fst (startScene t st)) = scenes (fst st)"
  "dialogues (fst (startScene t st)) = dialogues (fst st)"
  "characters (fst (startScene t st)) = characters (fst st)"
  "currentScene (snd (startScene t st)) = Some t"
  "l_sceneNumber (snd (startScene t st)) = l_sceneNumber (snd st)"
  "currentSceneCharacters (snd (startScene t st)) = []"
  by (cases st; simp add: startScene_def)+

text \<open>Whether a scene is open: \<^verbatim>\<open>currentScene\<close> is truthy.\<close>

lemma saveScene_closed:
  "currentScene (snd st) = None \<Longrightarrow> saveScene st = st"
  by (cases st) (simp add: saveScene_def)

lemma saveScene_fields:
  "dialogues (fst (saveScene st)) = dialogues (fst st)"
  "characters (fst (saveScene st)) = characters (fst st)"
  "currentScene (snd (saveScene st)) = currentScene (snd st)"
  "currentSceneCharacters (snd (saveScene st)) = currentSceneCharacters (snd st)"
  by (cases st; simp add: saveScene_def Let_def split: option.splits)+

lemma saveScene_open:
  assumes "currentScene (snd st) = Some h" "h \<noteq> []"
  shows "l_sceneNumber (snd (saveScene st)) = Suc (l_sceneNumber (snd st))"
    and "\<exists>s. scenes (fst (saveScene st)) = scenes (fst st) @ [s]
             \<and> sceneNumber s = Suc (l_sceneNumber (snd st)) \<and> Scene_Names s = h
             \<and> Scene_Characters s = (if currentSceneCharacters (snd st) = [] then None
                                      else Some (currentSceneCharacters (snd st)))"
  using assms by (cases st; simp add: saveScene_def Let_def)+

subsection \<open>The cases of one step\<close>

lemma cue_bounds:
  assumes "cue t = Some (c, d)"
  shows "1 < length c" "length c < 50"
  using assms by (auto simp: cue_def Let_def split: option.splits prod.splits if_splits)

lemma charMatch_name_class:
  assumes "charMatch t = Some (g1, g2)"
  shows "124 \<notin> set g1"
proof -
  from assms obtain c r where g1: "g1 = c # takeWhile nameClass r" and c: "isUpperAZ c"
    by (auto simp: charMatch_def Let_def split: list.splits if_splits)
  have "\<forall>x \<in> set (takeWhile nameClass r). nameClass x"
    by (auto dest: set_takeWhileD)
  moreover have "\<not> nameClass 124" by (simp add: nameClass_def isUpperAZ_def isSpace_def)
  moreover have "c \<noteq> 124" using c by (auto simp: isUpperAZ_def)
  ultimately show ?thesis using g1 by auto
qed

lemma cue_no_bar:
  assumes "cue t = Some (c, d)"
  shows "124 \<notin> set c"
proof -
  from assms obtain g1 g2 where m: "charMatch t = Some (g1, g2)"
    and c: "c = trim (collapse_ws (replace_paren (trim g1)))"
    by (auto simp: cue_def Let_def split: option.splits prod.splits if_splits)
  have "set c \<subseteq> insert 32 (set g1)"
    unfolding c using set_trim set_collapse_ws set_replace_paren by blast
  then show ?thesis using charMatch_name_class[OF m] by auto
qed

lemma cueAlone_character:
  assumes "cueAlone (trim line)" "2 < length (trim line)" "length (trim line) < 30"
  shows "replace_paren (trim (trim line)) = trim line"
proof -
  have "40 \<notin> set (trim line)"
    using assms(1) by (auto simp: cueAlone_def list_all_iff isUpperAZ_def isSpace_def)
  then show ?thesis by (simp add: trim_trim replace_paren_id)
qed

lemma step_cases [case_names blank heading cue dlg action]:
  obtains
    (blank) "\<not> isHeading line" "dialogueLine line = None" "step i line st = st"
  | (heading) "isHeading line" "trim line \<noteq> []"
      "step i line st = startScene (trim line) (saveScene st)"
  | (cue) c where "\<not> isHeading line" "dialogueLine line = None"
      "1 < length c" "length c < 50" "step i line st = addCharacter c st"
  | (dlg) c d where "\<not> isHeading line" "dialogueLine line = Some (c, d)"
      "1 < length c" "length c < 50" "124 \<notin> set c" "d \<noteq> []"
      "step i line st = addDialogue i c d (addCharacter c st)"
  | (action) "\<not> isHeading line" "dialogueLine line = None"
      "step i line st = actionLine (trim line) st"
proof -
  let ?t = "trim line"
  consider (a) "?t = []" | (b) "?t \<noteq> []" "sceneMatch ?t"
    | (c) "?t \<noteq> []" "\<not> sceneMatch ?t" "58 \<in> set ?t \<and> length ?t < 200"
    | (d) "?t \<noteq> []" "\<not> sceneMatch ?t" "\<not> (58 \<in> set ?t \<and> length ?t < 200)"
        "cueAlone ?t \<and> length ?t > 2 \<and> length ?t < 30"
    | (e) "?t \<noteq> []" "\<not> sceneMatch ?t" "\<not> (58 \<in> set ?t \<and> length ?t < 200)"
        "\<not> (cueAlone ?t \<and> length ?t > 2 \<and> length ?t < 30)"
        "cueExtended ?t \<and> length ?t < 50"
    | (f) "?t \<noteq> []" "\<not> sceneMatch ?t" "\<not> (58 \<in> set ?t \<and> length ?t < 200)"
        "\<not> (cueAlone ?t \<and> length ?t > 2 \<and> length ?t < 30)"
        "\<not> (cueExtended ?t \<and> length ?t < 50)"
    by blast
  then show thesis
  proof cases
    case a
    then show thesis by (intro blank) (simp_all add: isHeading_def dialogueLine_def step_def)
  next
    case b
    then show thesis by (intro heading) (simp_all add: isHeading_def step_def)
  next
    case c
    have nh: "\<not> isHeading line" using c by (simp add: isHeading_def)
    have st: "step i line st = colonLine i ?t st" using c by (simp add: step_def)
    show thesis
    proof (cases "cue ?t")
      case None
      then show thesis using c nh st
        by (intro blank) (simp_all add: dialogueLine_def colonLine_def)
    next
      case (Some p)
      obtain ch d where p: "p = (ch, d)" by (cases p)
      note cu = Some[unfolded p]
      show thesis
      proof (cases "d = []")
        case True
        show thesis
        proof (rule cue[of ch])
          show "dialogueLine line = None" using c cu True by (simp add: dialogueLine_def)
          show "step i line st = addCharacter ch st" using st cu True by (simp add: colonLine_def)
        qed (use nh cue_bounds[OF cu] in auto)
      next
        case False
        show thesis
        proof (rule dlg[of ch d])
          show "dialogueLine line = Some (ch, d)" using c cu False by (simp add: dialogueLine_def)
          show "step i line st = addDialogue i ch d (addCharacter ch st)"
            using st cu False by (simp add: colonLine_def)
        qed (use nh False cue_bounds[OF cu] cue_no_bar[OF cu] in auto)
      qed
    qed
  next
    case d
    have nh: "\<not> isHeading line" using d by (simp add: isHeading_def)
    have dl: "dialogueLine line = None" using d by (simp add: dialogueLine_def)
    have ch: "replace_paren (trim ?t) = ?t" using d by (intro cueAlone_character) auto
    have st: "step i line st = cueAloneLine ?t st" using d by (simp add: step_def)
    show thesis
    proof (cases "?t \<in> set commonWords")
      case True
      then show thesis using nh dl st ch by (intro blank) (simp_all add: cueAloneLine_def)
    next
      case False
      show thesis
      proof (rule cue[of ?t])
        show "step i line st = addCharacter ?t st"
          using st ch False d(1) by (simp add: cueAloneLine_def)
      qed (use nh dl d in auto)
    qed
  next
    case e
    have nh: "\<not> isHeading line" using e by (simp add: isHeading_def)
    have dl: "dialogueLine line = None" using e by (simp add: dialogueLine_def)
    have st: "step i line st = cueExtendedLine ?t st" using e by (auto simp: step_def Let_def)
    let ?c = "replace_paren (trim ?t)"
    have len: "length ?c < 50"
      using length_replace_paren[of "trim ?t"] length_trim[of ?t] e by linarith
    show thesis
    proof (cases "?c \<noteq> [] \<and> length ?c > 1")
      case True
      show thesis
      proof (rule cue[of ?c])
        show "step i line st = addCharacter ?c st" using st True by (simp add: cueExtendedLine_def)
      qed (use nh dl len True in auto)
    next
      case False
      then show thesis using nh dl st by (intro blank) (auto simp: cueExtendedLine_def)
    qed
  next
    case f
    then show thesis
      by (intro action) (auto simp: isHeading_def dialogueLine_def step_def Let_def)
  qed
qed



subsection \<open>The loop\<close>

lemma loop_append: "loop i (xs @ ys) st = loop (i + length xs) ys (loop i xs st)"
  by (induction xs arbitrary: i st) simp_all

lemma loop_invariant:
  assumes "\<And>i line st. P st \<Longrightarrow> P (step i line st)" and "P st"
  shows "P (loop i lines st)"
  using assms(2) by (induction lines arbitrary: i st) (simp_all add: assms(1))

lemma saveScene_empty: "currentScene (snd st) = Some [] \<Longrightarrow> saveScene st = st"
  by (cases st) (simp add: saveScene_def)

lemma parse_fields:
  "scenes (parseScreenplay a text) = scenes (fst (saveScene (loop 0 (split_nl text) (a, init_locals))))"
  "dialogues (parseScreenplay a text) = dialogues (fst (saveScene (loop 0 (split_nl text) (a, init_locals))))"
  "characters (parseScreenplay a text) = characters (fst (saveScene (loop 0 (split_nl text) (a, init_locals))))"
  "movieCharacters (parseScreenplay a text) =
     sort (filter (\<lambda>c. length c > 1 \<and> length c < 50)
       (characters (fst (saveScene (loop 0 (split_nl text) (a, init_locals))))))"
  "interactions (parseScreenplay a text) =
     map snd (interactionsMap (dialogues (fst (saveScene (loop 0 (split_nl text) (a, init_locals))))))"
  by (simp_all add: parseScreenplay_def analyzeCharacterInteractions_def split: prod.splits)

subsection \<open>Scene numbers\<close>

lemma numbered_saveScene: "numbered st \<Longrightarrow> numbered (saveScene st)"
proof (cases "currentScene (snd st)")
  case None
  assume "numbered st"
  then show ?thesis using None by (simp add: saveScene_closed)
next
  case (Some h)
  assume n: "numbered st"
  show ?thesis
  proof (cases "h = []")
    case True
    then show ?thesis using n Some by (simp add: saveScene_empty)
  next
    case False
    from saveScene_open[OF Some False] obtain s where
      "l_sceneNumber (snd (saveScene st)) = Suc (l_sceneNumber (snd st))"
      "scenes (fst (saveScene st)) = scenes (fst st) @ [s]"
      "sceneNumber s = Suc (l_sceneNumber (snd st))"
      by blast
    then show ?thesis using n by (simp add: numbered_def)
  qed
qed

lemma numbered_step: "numbered st \<Longrightarrow> numbered (step i line st)"
proof (cases rule: step_cases[of line i st])
  case heading
  assume "numbered st"
  then have "numbered (saveScene st)" by (rule numbered_saveScene)
  then show ?thesis by (simp add: heading numbered_def startScene_fields)
qed (simp_all add: numbered_def addCharacter_fields addDialogue_fields actionLine_fields)

lemma numbered_parse:
  "map sceneNumber (scenes (analyze text)) = [1..<Suc (length (scenes (analyze text)))]"
proof -
  let ?st = "saveScene (loop 0 (split_nl text) (new_analyzer [], init_locals))"
  have "numbered (new_analyzer [], init_locals)"
    by (simp add: numbered_def new_analyzer_def init_locals_def)
  then have "numbered (loop 0 (split_nl text) (new_analyzer [], init_locals))"
    by (intro loop_invariant[where P = numbered] numbered_step)
  then have n: "numbered ?st" by (rule numbered_saveScene)
  then have "length (scenes (fst ?st)) = l_sceneNumber (snd ?st)"
    unfolding numbered_def by (metis length_map length_upt diff_Suc_1)
  with n show ?thesis by (simp add: analyze_def parse_fields numbered_def)
qed

subsection \<open>The headings in document order\<close>

lemma headings_saveScene:
  assumes "open_ok st"
  shows "map Scene_Names (scenes (fst (saveScene st))) = headings st"
proof (cases "currentScene (snd st)")
  case None
  then show ?thesis by (simp add: saveScene_closed headings_def)
next
  case (Some h)
  then have "h \<noteq> []" using assms by (auto simp: open_ok_def)
  from saveScene_open(2)[OF Some this] show ?thesis by (auto simp: headings_def Some)
qed

lemma headings_step:
  assumes "open_ok st"
  shows "open_ok (step i line st)"
    and "headings (step i line st) = headings st @ (if isHeading line then [trim line] else [])"
proof -
  show "open_ok (step i line st)"
    using assms
    by (cases rule: step_cases[of line i st])
       (simp_all add: open_ok_def startScene_fields addCharacter_fields addDialogue_fields
          actionLine_fields)
  show "headings (step i line st) = headings st @ (if isHeading line then [trim line] else [])"
  proof (cases rule: step_cases[of line i st])
    case heading
    then show ?thesis
      using headings_saveScene[OF assms] by (simp add: headings_def startScene_fields)
  qed (simp_all add: headings_def addCharacter_fields addDialogue_fields actionLine_fields)
qed

lemma headings_loop:
  "open_ok st \<Longrightarrow>
   open_ok (loop i lines st)
   \<and> headings (loop i lines st) = headings st @ map trim (filter isHeading lines)"
proof (induction lines arbitrary: i st)
  case Nil
  then show ?case by simp
next
  case (Cons line lines)
  from headings_step[OF Cons.prems, of i line] Cons.IH[of "step i line st" "Suc i"]
  show ?case by simp
qed

lemma headings_parse:
  "map Scene_Names (scenes (analyze text)) = map trim (filter isHeading (split_nl text))"
proof -
  let ?st0 = "(new_analyzer [], init_locals)"
  have o: "open_ok ?st0" by (simp add: open_ok_def init_locals_def)
  have h: "headings ?st0 = []" by (simp add: headings_def init_locals_def new_analyzer_def)
  from headings_loop[OF o, of 0 "split_nl text"] h
  show ?thesis by (simp add: analyze_def parse_fields headings_saveScene)
qed



subsection \<open>Scene numbers of the dialogue entries\<close>

lemma attached_step: "attached st \<Longrightarrow> attached (step i line st)"
proof (cases rule: step_cases[of line i st])
  case heading
  assume a: "attached st"
  show ?thesis
  proof (cases "currentScene (snd st)")
    case None
    then show ?thesis
      using a heading by (auto simp: attached_def saveScene_closed startScene_fields)
  next
    case (Some h)
    then have "h \<noteq> []" using a by (auto simp: attached_def)
    from saveScene_open[OF Some this] obtain s where
      "l_sceneNumber (snd (saveScene st)) = Suc (l_sceneNumber (snd st))"
      "scenes (fst (saveScene st)) = scenes (fst st) @ [s]"
      by blast
    then show ?thesis
      using a heading by (auto simp: attached_def startScene_fields saveScene_fields)
  qed
qed (auto simp: attached_def addCharacter_fields addDialogue_fields actionLine_fields)

lemma attached_final:
  assumes "attached st" "d \<in> set (dialogues (fst (saveScene st)))"
  shows "1 \<le> d_sceneNumber d \<and> d_sceneNumber d \<le> max 1 (length (scenes (fst (saveScene st))))"
proof (cases "currentScene (snd st)")
  case None
  then show ?thesis using assms by (auto simp: attached_def saveScene_closed)
next
  case (Some h)
  then have "h \<noteq> []" using assms(1) by (auto simp: attached_def)
  from saveScene_open[OF Some this] obtain s where
    "scenes (fst (saveScene st)) = scenes (fst st) @ [s]" by blast
  then show ?thesis using assms by (auto simp: attached_def saveScene_fields)
qed

subsection \<open>Every name used is registered\<close>

lemma set_set_add: "set (set_add s x) = insert x (set s)"
  by (auto simp: set_add_def)

lemma registered_saveScene: "registered st \<Longrightarrow> registered (saveScene st)"
proof (cases "currentScene (snd st)")
  case None
  assume "registered st"
  then show ?thesis using None by (simp add: saveScene_closed)
next
  case (Some h)
  assume r: "registered st"
  show ?thesis
  proof (cases "h = []")
    case True
    then show ?thesis using r Some by (simp add: saveScene_empty)
  next
    case False
    from saveScene_open(2)[OF Some False] obtain s where
      "scenes (fst (saveScene st)) = scenes (fst st) @ [s]"
      "Scene_Characters s = (if currentSceneCharacters (snd st) = [] then None
                             else Some (currentSceneCharacters (snd st)))"
      by blast
    then show ?thesis using r by (auto simp: registered_def saveScene_fields split: if_splits)
  qed
qed

lemma registered_addCharacter:
  "registered st \<Longrightarrow> 1 < length c \<Longrightarrow> length c < 50 \<Longrightarrow> registered (addCharacter c st)"
  unfolding registered_def addCharacter_fields set_set_add by blast

lemma registered_step: "registered st \<Longrightarrow> registered (step i line st)"
proof (cases rule: step_cases[of line i st])
  case heading
  assume "registered st"
  then have "registered (saveScene st)" by (rule registered_saveScene)
  then show ?thesis using heading by (simp add: registered_def startScene_fields)
next
  case (cue c)
  assume "registered st"
  then show ?thesis using cue by (simp add: registered_addCharacter)
next
  case (dlg c d)
  assume "registered st"
  then have "registered (addCharacter c st)" using dlg by (simp add: registered_addCharacter)
  moreover have "c \<in> set (characters (fst (addCharacter c st)))"
    by (simp add: addCharacter_fields set_set_add)
  ultimately show ?thesis using dlg by (auto simp: registered_def addDialogue_fields)
qed (simp_all add: registered_def actionLine_fields)

subsection \<open>Dialogue before the first heading\<close>

lemma dialogues_step_mono: "set (dialogues (fst st)) \<subseteq> set (dialogues (fst (step i line st)))"
  by (cases rule: step_cases[of line i st])
     (auto simp: startScene_fields saveScene_fields addCharacter_fields addDialogue_fields
        actionLine_fields)

lemma dialogues_loop_mono: "set (dialogues (fst st)) \<subseteq> set (dialogues (fst (loop i lines st)))"
proof (induction lines arbitrary: i st)
  case Nil
  then show ?case by simp
next
  case (Cons line lines)
  from dialogues_step_mono[of st i line] Cons[of "step i line st" "Suc i"]
  show ?case by auto
qed

lemma no_heading_step:
  "\<not> isHeading line \<Longrightarrow> l_sceneNumber (snd (step i line st)) = l_sceneNumber (snd st)"
  by (cases rule: step_cases[of line i st])
     (simp_all add: addCharacter_fields addDialogue_fields actionLine_fields)

lemma no_heading_loop:
  "\<not> list_ex isHeading lines \<Longrightarrow> l_sceneNumber (snd (loop i lines st)) = l_sceneNumber (snd st)"
  by (induction lines arbitrary: i st) (simp_all add: no_heading_step)

lemma dialogueLine_step:
  assumes "dialogueLine line = Some (c, d)"
  shows "dialogues (fst (step i line st)) = dialogues (fst st) @
     [\<lparr>d_sceneNumber = l_sceneNumber (snd st) + 1, d_characters = c,
       Character_dialogue = d, lineNumber = i + 1\<rparr>]"
proof (cases rule: step_cases[of line i st])
  case heading
  then show ?thesis using assms by (simp add: isHeading_def dialogueLine_def)
next
  case (dlg c' d')
  then show ?thesis using assms by (simp add: addDialogue_fields addCharacter_fields)
qed (use assms in simp_all)

subsection \<open>Keys of pairs\<close>

lemma bar_split:
  fixes a b c d :: jstring
  assumes "124 \<notin> set a" "124 \<notin> set c" "a @ [124] @ b = c @ [124] @ d"
  shows "a = c \<and> b = d"
proof -
  have "\<And>x. x \<in> set a \<Longrightarrow> x \<noteq> 124" using assms(1) by auto
  then have "takeWhile (\<lambda>x. x \<noteq> 124) (a @ [124] @ b) = a"
    by (simp add: takeWhile_append2)
  moreover have "\<And>x. x \<in> set c \<Longrightarrow> x \<noteq> 124" using assms(2) by auto
  then have "takeWhile (\<lambda>x. x \<noteq> 124) (c @ [124] @ d) = c"
    by (simp add: takeWhile_append2)
  ultimately have "a = c" using assms(3) by simp
  then show ?thesis using assms(3) by simp
qed

lemma interactionKey_inj:
  assumes "124 \<notin> set a" "124 \<notin> set b" "124 \<notin> set c" "124 \<notin> set d"
    and "interactionKey a b = interactionKey c d"
  shows "{a, b} = {c, d}"
  using assms bar_split[of a c b d] bar_split[of a d b c] bar_split[of b c a d]
    bar_split[of b d a c]
  by (auto simp: interactionKey_def split: if_splits)

lemma interactionKey_commute: "interactionKey a b = interactionKey b a"
  by (auto simp: interactionKey_def)

lemma interactionKey_cong: "{a, b} = {c, d} \<Longrightarrow> interactionKey a b = interactionKey c d"
  using interactionKey_commute[of a b] by (auto simp: doubleton_eq_iff)

subsection \<open>Sets and pairs\<close>

lemma foldl_set_add:
  "distinct acc \<Longrightarrow>
   distinct (foldl set_add acc xs) \<and> set (foldl set_add acc xs) = set acc \<union> set xs"
  by (induction xs arbitrary: acc) (auto simp: set_add_def)

lemma uniq_props: "distinct (uniq xs)" "set (uniq xs) = set xs"
  using foldl_set_add[of "[]" xs] by (simp_all add: uniq_def)

lemma set_pairs: "set (pairs xs) \<subseteq> set xs \<times> set xs"
  by (induction xs) auto

lemma pairs_distinct: "distinct xs \<Longrightarrow> (a, b) \<in> set (pairs xs) \<Longrightarrow> a \<noteq> b"
  using set_pairs by (induction xs) auto

lemma pairs_keys_distinct:
  assumes "distinct xs" "\<forall>x \<in> set xs. 124 \<notin> set x"
  shows "distinct (map (\<lambda>p. interactionKey (fst p) (snd p)) (pairs xs))"
  using assms
proof (induction xs)
  case Nil
  then show ?case by simp
next
  case (Cons x xs)
  have nb: "124 \<notin> set x" "\<forall>y \<in> set xs. 124 \<notin> set y" using Cons.prems by auto
  have 1: "distinct (map (\<lambda>p. interactionKey (fst p) (snd p)) (map (Pair x) xs))"
  proof -
    have "inj_on (interactionKey x) (set xs)"
    proof (rule inj_onI)
      fix y z assume "y \<in> set xs" "z \<in> set xs" "interactionKey x y = interactionKey x z"
      then have "{x, y} = {x, z}" using nb by (intro interactionKey_inj) auto
      then show "y = z" by (auto simp: doubleton_eq_iff)
    qed
    moreover have "distinct xs" using Cons.prems by simp
    ultimately show ?thesis by (simp add: distinct_map comp_def)
  qed
  have 2: "distinct (map (\<lambda>p. interactionKey (fst p) (snd p)) (pairs xs))"
    using Cons by simp
  have 3: "interactionKey x y \<noteq> interactionKey a b"
    if "y \<in> set xs" "(a, b) \<in> set (pairs xs)" for y a b
  proof
    assume e: "interactionKey x y = interactionKey a b"
    have ab: "a \<in> set xs" "b \<in> set xs" using that(2) set_pairs by auto
    then have "{x, y} = {a, b}" using e nb that(1) by (intro interactionKey_inj) auto
    then have "x \<in> set xs" using ab by (auto simp: doubleton_eq_iff)
    then show False using Cons.prems by simp
  qed
  show ?case using 1 2 3 by (auto simp: comp_def)
qed

subsection \<open>Maps\<close>

lemma map_adjust_keys: "map fst (map_adjust k f m) = map fst m"
  by (induction m) (auto simp: map_adjust_def)

lemma set_map_adjust:
  "set (map_adjust k f m) = (\<lambda>e. if fst e = k then (fst e, f (snd e)) else e) ` set m"
  by (simp add: map_adjust_def)

lemma groupDialogue_keys:
  "distinct (map fst m) \<Longrightarrow> distinct (map fst (groupDialogue m d))"
  by (auto simp: groupDialogue_def Let_def map_adjust_keys map_has_def)

lemma groupDialogue_members:
  assumes "\<forall>e \<in> set m. set (snd e) \<subseteq> D" "d \<in> D"
  shows "\<forall>e \<in> set (groupDialogue m d). set (snd e) \<subseteq> D"
  using assms by (fastforce simp: groupDialogue_def Let_def set_map_adjust split: if_splits)

lemma sceneDialogues_props:
  "distinct (map fst m) \<Longrightarrow> \<forall>e \<in> set m. set (snd e) \<subseteq> D \<Longrightarrow> set ds \<subseteq> D \<Longrightarrow>
   distinct (map fst (foldl groupDialogue m ds))
   \<and> (\<forall>e \<in> set (foldl groupDialogue m ds). set (snd e) \<subseteq> D)"
proof (induction ds arbitrary: m)
  case Nil
  then show ?case by simp
next
  case (Cons d ds)
  have "distinct (map fst (groupDialogue m d))" using Cons.prems by (simp add: groupDialogue_keys)
  moreover have "\<forall>e \<in> set (groupDialogue m d). set (snd e) \<subseteq> D"
    using Cons.prems by (intro groupDialogue_members) auto
  ultimately show ?case using Cons.IH[of "groupDialogue m d"] Cons.prems by simp
qed



lemma entry_ok_mono: "entry_ok S e \<Longrightarrow> S \<subseteq> T \<Longrightarrow> entry_ok T e"
  by (auto simp: entry_ok_def)

lemma well_formed_mono: "well_formed S m \<Longrightarrow> S \<subseteq> T \<Longrightarrow> well_formed T m"
  by (auto simp: well_formed_def intro: entry_ok_mono)

lemma ball_map_adjust:
  "(\<forall>e \<in> set (map_adjust k f m). P e)
   = (\<forall>e \<in> set m. P (if fst e = k then (fst e, f (snd e)) else e))"
  by (induction m) (simp_all add: map_adjust_def)

lemma addPair_ok:
  assumes wf: "well_formed (insert n S) m" and fr: "fresh n K m"
    and ab: "a \<noteq> b" "124 \<notin> set a" "124 \<notin> set b" and k: "interactionKey a b \<notin> K"
  shows "well_formed (insert n S) (addPair n m (a, b))"
    and "fresh n (insert (interactionKey a b) K) (addPair n m (a, b))"
proof -
  let ?k = "interactionKey a b"
  let ?new = "(?k, \<lparr>character1 = a, character2 = b, i_scenes = [], interactionCount = 0\<rparr>)"
  let ?f = "\<lambda>x. x\<lparr>i_scenes := i_scenes x @ [n], interactionCount := interactionCount x + 1\<rparr>"
  define m' where "m' = (if map_has ?k m then m else m @ [?new])"
  have res: "addPair n m (a, b) = map_adjust ?k ?f m'"
    by (simp add: addPair_def Let_def m'_def)
  have new_ok: "entry_ok (insert n S) ?new" using ab by (simp add: entry_ok_def)
  have wf': "well_formed (insert n S) m'"
    using wf new_ok by (auto simp: well_formed_def map_has_def m'_def)
  have fr': "fresh n K m'" using fr by (auto simp: fresh_def m'_def)
  have adj: "entry_ok (insert n S) (fst e, ?f (snd e))" if "e \<in> set m'" "fst e = ?k" for e
  proof -
    have e: "entry_ok (insert n S) e" using wf' that(1) by (simp add: well_formed_def)
    have "n \<notin> set (i_scenes (snd e))" using fr' that k by (auto simp: fresh_def)
    then show ?thesis using e by (simp add: entry_ok_def)
  qed
  have "\<forall>e \<in> set m'. entry_ok (insert n S) (if fst e = ?k then (fst e, ?f (snd e)) else e)"
    using wf' adj by (simp add: well_formed_def)
  then show "well_formed (insert n S) (addPair n m (a, b))"
    unfolding res well_formed_def map_adjust_keys ball_map_adjust
    using wf' by (simp add: well_formed_def)
  have "\<forall>e \<in> set m'. n \<in> set (i_scenes (snd (if fst e = ?k then (fst e, ?f (snd e)) else e)))
          \<longrightarrow> fst (if fst e = ?k then (fst e, ?f (snd e)) else e) \<in> insert ?k K"
    using fr' by (simp add: fresh_def)
  then show "fresh n (insert ?k K) (addPair n m (a, b))"
    unfolding res fresh_def ball_map_adjust by simp
qed

lemma addPairs_ok:
  assumes "well_formed (insert n S) m" "fresh n K m"
    and "\<forall>p \<in> set ps. fst p \<noteq> snd p \<and> 124 \<notin> set (fst p) \<and> 124 \<notin> set (snd p)"
    and "distinct (map (\<lambda>p. interactionKey (fst p) (snd p)) ps)"
    and "\<forall>p \<in> set ps. interactionKey (fst p) (snd p) \<notin> K"
  shows "well_formed (insert n S) (foldl (addPair n) m ps)"
  using assms
proof (induction ps arbitrary: m K)
  case Nil
  then show ?case by simp
next
  case (Cons p ps)
  obtain a b where p: "p = (a, b)" by (cases p)
  let ?k = "interactionKey a b"
  have ab: "a \<noteq> b" "124 \<notin> set a" "124 \<notin> set b" "?k \<notin> K" using Cons.prems p by auto
  note step = addPair_ok[OF Cons.prems(1,2) ab]
  have "well_formed (insert n S) (foldl (addPair n) (addPair n m (a, b)) ps)"
  proof (rule Cons.IH[OF step])
    show "\<forall>p \<in> set ps. fst p \<noteq> snd p \<and> 124 \<notin> set (fst p) \<and> 124 \<notin> set (snd p)"
      using Cons.prems(3) by simp
    show "distinct (map (\<lambda>p. interactionKey (fst p) (snd p)) ps)"
      using Cons.prems(4) by simp
    show "\<forall>q \<in> set ps. interactionKey (fst q) (snd q) \<notin> insert ?k K"
    proof
      fix q assume q: "q \<in> set ps"
      have "interactionKey (fst q) (snd q) \<noteq> ?k"
        using Cons.prems(4) p q by (auto simp: image_iff)
      moreover have "interactionKey (fst q) (snd q) \<notin> K" using Cons.prems(5) q by simp
      ultimately show "interactionKey (fst q) (snd q) \<notin> insert ?k K" by simp
    qed
  qed
  then show ?case by (simp add: p)
qed

lemma sceneInteractions_ok:
  assumes wf: "well_formed S m" and n: "n \<notin> S"
    and nb: "\<forall>d \<in> set ds. 124 \<notin> set (d_characters d)"
  shows "well_formed (insert n S) (sceneInteractions m (n, ds))"
proof -
  let ?cs = "uniq (map d_characters ds)"
  have cs: "distinct ?cs" "\<forall>c \<in> set ?cs. 124 \<notin> set c"
    using nb by (auto simp: uniq_props)
  have 1: "well_formed (insert n S) m" using wf by (rule well_formed_mono) auto
  have 2: "fresh n {} m" using wf n by (auto simp: fresh_def well_formed_def entry_ok_def)
  have 3: "\<forall>p \<in> set (pairs ?cs). fst p \<noteq> snd p \<and> 124 \<notin> set (fst p) \<and> 124 \<notin> set (snd p)"
  proof
    fix p assume p: "p \<in> set (pairs ?cs)"
    then have "fst p \<in> set ?cs" "snd p \<in> set ?cs" using set_pairs[of ?cs] by auto
    moreover have "fst p \<noteq> snd p" using pairs_distinct[OF cs(1), of "fst p" "snd p"] p by simp
    ultimately show "fst p \<noteq> snd p \<and> 124 \<notin> set (fst p) \<and> 124 \<notin> set (snd p)"
      using cs(2) by blast
  qed
  have 4: "distinct (map (\<lambda>p. interactionKey (fst p) (snd p)) (pairs ?cs))"
    using cs by (rule pairs_keys_distinct)
  show ?thesis
    unfolding sceneInteractions_def prod.case
    by (rule addPairs_ok[OF 1 2 3 4]) simp
qed

lemma scenesInteractions_ok:
  assumes "well_formed S m" "distinct (map fst g)" "set (map fst g) \<inter> S = {}"
    and "\<forall>e \<in> set g. \<forall>d \<in> set (snd e). 124 \<notin> set (d_characters d)"
  shows "well_formed (S \<union> set (map fst g)) (foldl sceneInteractions m g)"
  using assms
proof (induction g arbitrary: m S)
  case Nil
  then show ?case by simp
next
  case (Cons e g)
  obtain n ds where e: "e = (n, ds)" by (cases e)
  have "well_formed (insert n S) (sceneInteractions m (n, ds))"
    using Cons.prems e by (intro sceneInteractions_ok) auto
  then have "well_formed (insert n S \<union> set (map fst g)) (foldl sceneInteractions (sceneInteractions m (n, ds)) g)"
    using Cons.prems e by (intro Cons.IH) auto
  then show ?case by (simp add: e)
qed

lemma interactionsMap_ok:
  assumes "\<forall>d \<in> set ds. 124 \<notin> set (d_characters d)"
  shows "\<exists>S. well_formed S (interactionsMap ds)"
proof -
  let ?g = "foldl groupDialogue [] ds"
  have g: "distinct (map fst ?g)" "\<forall>e \<in> set ?g. set (snd e) \<subseteq> set ds"
    using sceneDialogues_props[of "[]" "set ds" ds] by simp_all
  have "well_formed ({} \<union> set (map fst ?g)) (foldl sceneInteractions [] ?g)"
  proof (rule scenesInteractions_ok)
    show "well_formed {} []" by (simp add: well_formed_def)
    show "\<forall>e \<in> set ?g. \<forall>d \<in> set (snd e). 124 \<notin> set (d_characters d)"
      using g(2) assms by blast
  qed (use g in simp_all)
  then show ?thesis unfolding interactionsMap_def by blast
qed

subsection \<open>The names of the Dialogue Index hold no bar\<close>

lemma bar_free_step: "bar_free st \<Longrightarrow> bar_free (step i line st)"
  by (cases rule: step_cases[of line i st])
     (auto simp: bar_free_def startScene_fields saveScene_fields addCharacter_fields
        addDialogue_fields actionLine_fields)

lemma bar_free_parse: "\<forall>d \<in> set (dialogues (analyze text)). 124 \<notin> set (d_characters d)"
proof -
  have "bar_free (new_analyzer [], init_locals)"
    by (simp add: bar_free_def new_analyzer_def)
  then have "bar_free (loop 0 (split_nl text) (new_analyzer [], init_locals))"
    by (intro loop_invariant[where P = bar_free] bar_free_step)
  then show ?thesis by (simp add: bar_free_def analyze_def parse_fields saveScene_fields)
qed

lemma interactions_analyze:
  "interactions (analyze text) = map snd (interactionsMap (dialogues (analyze text)))"
  by (simp add: analyze_def parse_fields)

lemma analyze_well_formed: "\<exists>S. well_formed S (interactionsMap (dialogues (analyze text)))"
  using bar_free_parse by (rule interactionsMap_ok)

subsection \<open>A run on an analyzer that already holds collections\<close>

















section \<open>The claims\<close>

subsection \<open>C1\<close>

text \<open>
  C1, as stated, fails: a line of dialogue with no heading anywhere is recorded with scene
  number 1 while there is no scene at all.
\<close>

theorem dangling_dialogue_counterexample:
  "map d_sceneNumber (dialogues (analyze cueOnly)) = [1]
   \<and> length (scenes (analyze cueOnly)) = 0"
  by code_simp

text \<open>
  C1, amended. For every input text, every entry of the Dialogue Index has a scene number
  from 1 to the larger of 1 and the number of scenes: with at least one scene in the
  output the number refers to a scene that exists, and with no scene at all it is 1.
\<close>

theorem dialogue_scene_number_bounds:
  "d \<in> set (dialogues (analyze text)) \<Longrightarrow>
   1 \<le> d_sceneNumber d \<and> d_sceneNumber d \<le> max 1 (length (scenes (analyze text)))"
proof -
  assume d: "d \<in> set (dialogues (analyze text))"
  have "attached (new_analyzer [], init_locals)"
    by (simp add: attached_def new_analyzer_def init_locals_def)
  then have "attached (loop 0 (split_nl text) (new_analyzer [], init_locals))"
    by (intro loop_invariant[where P = attached] attached_step)
  from attached_final[OF this] d show ?thesis by (simp add: analyze_def parse_fields)
qed

theorem dialogue_scene_number_bounds_witness:
  "\<lparr>d_sceneNumber = 2, d_characters = js ''MARY'', Character_dialogue = js ''Hi John.'',
     lineNumber = 4\<rparr> \<in> set (dialogues (analyze scenarioA))
   \<and> (1::nat) \<le> 2 \<and> 2 \<le> max 1 (length (scenes (analyze scenarioA)))"
proof -
  let ?d = "\<lparr>d_sceneNumber = 2, d_characters = js ''MARY'',
             Character_dialogue = js ''Hi John.'', lineNumber = 4\<rparr>"
  have m: "?d \<in> set (dialogues (analyze scenarioA))" by code_simp
  from dialogue_scene_number_bounds[OF m] m show ?thesis by simp
qed

subsection \<open>C2\<close>

text \<open>
  C2, as stated, fails: the line of dialogue before the first heading is in the Dialogue
  Index, with scene number 1 and line number 1; it is missing only from the dialogue list
  of the scene.
\<close>

theorem pre_scene_dialogue_counterexample:
  "dialogues (analyze cueThenHeading)
     = [\<lparr>d_sceneNumber = 1, d_characters = js ''JOHN'',
         Character_dialogue = js ''Hello'', lineNumber = 1\<rparr>]
   \<and> map Scene_Dialogue (scenes (analyze cueThenHeading)) = [None]"
  by code_simp

text \<open>
  C2, amended. For every input text, a line that is a character cue with dialogue and
  that is read before any scene heading contributes an entry to the Dialogue Index: the
  entry has scene number 1, the character and the dialogue of the line, and the 1-based
  number of the line.
\<close>

theorem pre_scene_dialogue_recorded:
  assumes "split_nl text = pre @ line # post"
    and "\<not> list_ex isHeading pre"
    and "dialogueLine line = Some (character, dialogue)"
  shows "\<lparr>d_sceneNumber = 1, d_characters = character, Character_dialogue = dialogue,
          lineNumber = length pre + 1\<rparr> \<in> set (dialogues (analyze text))"
proof -
  let ?st0 = "(new_analyzer [], init_locals)"
  let ?st1 = "loop 0 pre ?st0"
  let ?st2 = "step (length pre) line ?st1"
  let ?e = "\<lparr>d_sceneNumber = 1, d_characters = character, Character_dialogue = dialogue,
          lineNumber = length pre + 1\<rparr>"
  have "l_sceneNumber (snd ?st1) = 0"
    using no_heading_loop[OF assms(2), of 0 ?st0] by (simp add: init_locals_def)
  then have "?e \<in> set (dialogues (fst ?st2))"
    using dialogueLine_step[OF assms(3), of "length pre" ?st1] by simp
  moreover have "loop 0 (split_nl text) ?st0 = loop (Suc (length pre)) post ?st2"
    by (simp add: assms(1) loop_append)
  ultimately have "?e \<in> set (dialogues (fst (loop 0 (split_nl text) ?st0)))"
    using dialogues_loop_mono[of ?st2 "Suc (length pre)" post] by auto
  then show ?thesis by (simp add: analyze_def parse_fields saveScene_fields)
qed

theorem pre_scene_dialogue_recorded_witness:
  "split_nl titleThenCue = [js ''My Film''] @ js ''JOHN: Hello'' # [js ''INT. HOUSE - DAY'']
   \<and> \<not> list_ex isHeading [js ''My Film'']
   \<and> dialogueLine (js ''JOHN: Hello'') = Some (js ''JOHN'', js ''Hello'')
   \<and> \<lparr>d_sceneNumber = 1, d_characters = js ''JOHN'', Character_dialogue = js ''Hello'',
        lineNumber = 2\<rparr> \<in> set (dialogues (analyze titleThenCue))"
proof -
  have 1: "split_nl titleThenCue = [js ''My Film''] @ js ''JOHN: Hello'' # [js ''INT. HOUSE - DAY'']"
    by code_simp
  have 2: "\<not> list_ex isHeading [js ''My Film'']" by code_simp
  have 3: "dialogueLine (js ''JOHN: Hello'') = Some (js ''JOHN'', js ''Hello'')" by code_simp
  from pre_scene_dialogue_recorded[OF 1 2 3] 1 2 3 show ?thesis by (simp add: numeral_2_eq_2)
qed

subsection \<open>C3\<close>

text \<open>
  C3. For every input text, the numbers of the scenes of the output are 1, 2, and so on up
  to the number of scenes, in this order; and the scenes are the heading lines of the text
  in document order, one scene for each (the number is given when the scene is closed, by
  the next heading or by the end of the input).
\<close>

theorem scene_numbers_contiguous:
  "map sceneNumber (scenes (analyze text)) = [1..<Suc (length (scenes (analyze text)))]
   \<and> map Scene_Names (scenes (analyze text)) = map trim (filter isHeading (split_nl text))"
  using numbered_parse headings_parse by simp

subsection \<open>C4\<close>

text \<open>
  C4. On a heading with a leading scene number the line is classified as a scene heading
  and a scene is produced, but its location is the empty string instead of HOUSE: the
  pattern of \<^verbatim>\<open>extractLocation\<close> does not allow the number that the pattern of line 72
  allows. Without the number the location is HOUSE.
\<close>

theorem numbered_heading_location_empty:
  "sceneMatch numberedHeading
   \<and> map (\<lambda>s. (Scene_Names s, location s)) (scenes (analyze numberedHeading))
       = [(numberedHeading, [])]
   \<and> extractLocation (js ''INT. HOUSE - DAY'') = js ''HOUSE''"
  by code_simp

subsection \<open>C5\<close>

text \<open>
  C5, as stated, fails: when MARY speaks before JOHN in a scene, the record holds MARY
  as \<open>character1\<close> and JOHN as \<open>character2\<close>, and MARY is not below JOHN.
\<close>

theorem unsorted_pair_counterexample:
  "map (\<lambda>x. (character1 x, character2 x)) (interactions (analyze maryThenJohn))
     = [(js ''MARY'', js ''JOHN'')]
   \<and> \<not> js ''MARY'' < js ''JOHN''"
  by code_simp

text \<open>
  C5, amended. For every input text and every Interaction record, the key under which
  the record is kept holds the two names in sorted order (the smaller name, a bar, the
  larger name), and the two names differ. Nothing is said of the order of
  \<open>character1\<close> and \<open>character2\<close> themselves.
\<close>

theorem interaction_key_sorted:
  "\<forall>e \<in> set (interactionsMap (dialogues (analyze text))).
     fst e = (if character2 (snd e) < character1 (snd e)
              then character2 (snd e) @ [124] @ character1 (snd e)
              else character1 (snd e) @ [124] @ character2 (snd e))
     \<and> character1 (snd e) \<noteq> character2 (snd e)"
proof -
  from analyze_well_formed[of "text"] obtain S where
    "well_formed S (interactionsMap (dialogues (analyze text)))" ..
  then show ?thesis by (auto simp: well_formed_def entry_ok_def interactionKey_def)
qed

theorem interaction_key_sorted_witness:
  "(js ''JOHN|MARY'', \<lparr>character1 = js ''MARY'', character2 = js ''JOHN'', i_scenes = [1],
      interactionCount = 1\<rparr>) \<in> set (interactionsMap (dialogues (analyze maryThenJohn)))
   \<and> js ''JOHN'' < js ''MARY''
   \<and> js ''JOHN|MARY'' = js ''JOHN'' @ [124] @ js ''MARY''
   \<and> js ''MARY'' \<noteq> js ''JOHN''"
proof -
  let ?e = "(js ''JOHN|MARY'', \<lparr>character1 = js ''MARY'', character2 = js ''JOHN'',
              i_scenes = [1], interactionCount = 1\<rparr>)"
  have m: "?e \<in> set (interactionsMap (dialogues (analyze maryThenJohn)))" by code_simp
  have lt: "js ''JOHN'' < js ''MARY''" by code_simp
  from interaction_key_sorted[of maryThenJohn] m
  have "fst ?e = (if character2 (snd ?e) < character1 (snd ?e)
                  then character2 (snd ?e) @ [124] @ character1 (snd ?e)
                  else character1 (snd ?e) @ [124] @ character2 (snd ?e))
        \<and> character1 (snd ?e) \<noteq> character2 (snd ?e)"
    by (rule bspec)
  then show ?thesis using m lt by simp
qed

subsection \<open>C6\<close>

text \<open>
  C6. For every input text: no Interaction record pairs a character with itself; the
  scenes of a record hold no scene number twice; the count of a record is the length of
  its scenes; and no two records hold the same unordered pair of characters.
\<close>

theorem interactions_unique:
  "(\<forall>x \<in> set (interactions (analyze text)).
      character1 x \<noteq> character2 x
      \<and> distinct (i_scenes x)
      \<and> interactionCount x = length (i_scenes x))
   \<and> distinct (map (\<lambda>x. {character1 x, character2 x}) (interactions (analyze text)))"
proof -
  let ?m = "interactionsMap (dialogues (analyze text))"
  from analyze_well_formed[of "text"] obtain S where wf: "well_formed S ?m" ..
  have 1: "\<forall>x \<in> set (map snd ?m). character1 x \<noteq> character2 x \<and> distinct (i_scenes x)
      \<and> interactionCount x = length (i_scenes x)"
    using wf by (auto simp: well_formed_def entry_ok_def)
  have "inj_on (\<lambda>e. {character1 (snd e), character2 (snd e)}) (set ?m)"
  proof (rule inj_onI)
    fix e1 e2
    assume m: "e1 \<in> set ?m" "e2 \<in> set ?m"
      and eq: "{character1 (snd e1), character2 (snd e1)} = {character1 (snd e2), character2 (snd e2)}"
    have "fst e1 = fst e2"
      using wf m interactionKey_cong[OF eq] by (simp add: well_formed_def entry_ok_def)
    moreover have "inj_on fst (set ?m)" using wf by (simp add: well_formed_def distinct_map)
    ultimately show "e1 = e2" using m by (auto dest: inj_onD)
  qed
  moreover have "distinct ?m" using wf by (simp add: well_formed_def distinct_map)
  ultimately have 2: "distinct (map (\<lambda>x. {character1 x, character2 x}) (map snd ?m))"
    by (simp add: distinct_map comp_def)
  show ?thesis using 1 2 by (simp add: interactions_analyze)
qed

theorem interactions_unique_witness:
  "interactions (analyze twoScenesSamePair)
     = [\<lparr>character1 = js ''MARY'', character2 = js ''JOHN'', i_scenes = [1, 2],
         interactionCount = 2\<rparr>]
   \<and> js ''MARY'' \<noteq> js ''JOHN'' \<and> distinct [1::nat, 2] \<and> (2::nat) = length [1::nat, 2]
   \<and> distinct (map (\<lambda>x. {character1 x, character2 x}) (interactions (analyze twoScenesSamePair)))"
proof -
  have v: "interactions (analyze twoScenesSamePair)
     = [\<lparr>character1 = js ''MARY'', character2 = js ''JOHN'', i_scenes = [1, 2],
         interactionCount = 2\<rparr>]"
    by code_simp
  from interactions_unique[of twoScenesSamePair] show ?thesis unfolding v by simp
qed

subsection \<open>C7\<close>

text \<open>
  C7. Scenario A: the text of two headings, each followed by one line of dialogue, gives
  exactly two scenes, numbered 1 and 2, with locations HOUSE and STREET and times DAY
  and NIGHT; the characters JOHN and MARY; two dialogue entries, one in each scene; and
  no interaction.
\<close>

theorem scenario_A:
  "map (\<lambda>s. (sceneNumber s, location s, timeOfDay s)) (scenes (analyze scenarioA))
     = [(1, js ''HOUSE'', js ''DAY''), (2, js ''STREET'', js ''NIGHT'')]
   \<and> movieCharacters (analyze scenarioA) = [js ''JOHN'', js ''MARY'']
   \<and> characters (analyze scenarioA) = [js ''JOHN'', js ''MARY'']
   \<and> map (\<lambda>d. (d_sceneNumber d, d_characters d)) (dialogues (analyze scenarioA))
        = [(1, js ''JOHN''), (2, js ''MARY'')]
   \<and> interactions (analyze scenarioA) = []"
  by code_simp

subsection \<open>C8\<close>

text \<open>
  C8. Scenario C: on the single line FADE IN: the registry receives neither a character
  FADE nor a character IN. (The name read from the line is FADE IN, which is not a word
  of the stoplist, and it is that name that is registered.)
\<close>

theorem fade_in_registers_neither:
  "js ''FADE'' \<notin> set (characters (analyze fadeIn))
   \<and> js ''IN'' \<notin> set (characters (analyze fadeIn))
   \<and> js ''FADE'' \<notin> set (movieCharacters (analyze fadeIn))
   \<and> js ''IN'' \<notin> set (movieCharacters (analyze fadeIn))"
  by code_simp

lemma fade_in_registry: "characters (analyze fadeIn) = [js ''FADE IN'']"
  by code_simp

subsection \<open>C9\<close>




subsection \<open>C10\<close>

text \<open>
  C10. For every input text, every name in the character list of a scene and the
  character of every dialogue entry is a member of the sorted character output.
\<close>

theorem names_registered:
  "(\<forall>s \<in> set (scenes (analyze text)). \<forall>cs. Scene_Characters s = Some cs
        \<longrightarrow> set cs \<subseteq> set (movieCharacters (analyze text)))
   \<and> (\<forall>d \<in> set (dialogues (analyze text)). d_characters d \<in> set (movieCharacters (analyze text)))"
proof -
  let ?st = "saveScene (loop 0 (split_nl text) (new_analyzer [], init_locals))"
  have "registered (new_analyzer [], init_locals)"
    by (simp add: registered_def new_analyzer_def init_locals_def)
  then have "registered (loop 0 (split_nl text) (new_analyzer [], init_locals))"
    by (intro loop_invariant[where P = registered] registered_step)
  then have r: "registered ?st" by (rule registered_saveScene)
  then have "filter (\<lambda>c. length c > 1 \<and> length c < 50) (characters (fst ?st)) = characters (fst ?st)"
    by (simp add: registered_def)
  then have "set (movieCharacters (analyze text)) = set (characters (fst ?st))"
    by (simp add: analyze_def parse_fields)
  then show ?thesis using r by (simp add: analyze_def parse_fields registered_def)
qed

theorem names_registered_witness:
  "hd (scenes (analyze scenarioA)) \<in> set (scenes (analyze scenarioA))
   \<and> Scene_Characters (hd (scenes (analyze scenarioA))) = Some [js ''JOHN'']
   \<and> set [js ''JOHN''] \<subseteq> set (movieCharacters (analyze scenarioA))
   \<and> hd (dialogues (analyze scenarioA)) \<in> set (dialogues (analyze scenarioA))
   \<and> d_characters (hd (dialogues (analyze scenarioA))) \<in> set (movieCharacters (analyze scenarioA))"
proof -
  have s: "hd (scenes (analyze scenarioA)) \<in> set (scenes (analyze scenarioA))" by code_simp
  have c: "Scene_Characters (hd (scenes (analyze scenarioA))) = Some [js ''JOHN'']" by code_simp
  have d: "hd (dialogues (analyze scenarioA)) \<in> set (dialogues (analyze scenarioA))" by code_simp
  from names_registered[of scenarioA] s c d show ?thesis by blast
qed

end
